theory Spec2Isabelle
  imports Complex_Main "HOL-Library.Word"
begin

unbundle bit_operations_syntax

section \<open>Core types (types.h)\<close>

type_synonym u64 = "64 word"

text \<open>
  A C++ \<open>double\<close>. The finite values are embedded in the reals (every binary64 number
  is a real; the model admits every real). The two infinities and NaN are values of
  their own. The book only stores quantities and compares them with a constant, so no
  rounding is involved there.
\<close>

datatype double = Num real | PInf | NInf | NaN

text \<open>The comparison \<open>a <= b\<close> on doubles: false as soon as one side is NaN.\<close>

fun double_le :: "double \<Rightarrow> double \<Rightarrow> bool" where
  "double_le NaN _ = False"
| "double_le _ NaN = False"
| "double_le NInf _ = True"
| "double_le _ PInf = True"
| "double_le PInf _ = False"
| "double_le _ NInf = False"
| "double_le (Num a) (Num b) = (a \<le> b)"

text \<open>
  The literal \<open>1e-15\<close>: the binary64 number nearest to \<open>10\<^sup>-\<^sup>1\<^sup>5\<close>, which is
  \<open>2535301200456459 / 2\<^sup>1\<^sup>0\<^sup>1\<close> (bit pattern \<open>0x3CD203AF9EE75616\<close>).
\<close>

definition lit_1e_15 :: double where
  "lit_1e_15 = Num (2535301200456459 / 2 ^ 101)"

text \<open>\<open>struct Price { uint64_t raw; }\<close>; the comparison operators compare \<open>raw\<close>.\<close>

datatype Price = Price (raw: u64)

text \<open>\<open>struct Qty { double value; }\<close> with \<open>is_zero() { return value <= 1e-15; }\<close>.\<close>

datatype Qty = Qty (qty_value: double)

definition is_zero :: "Qty \<Rightarrow> bool" where
  "is_zero q = double_le (qty_value q) lit_1e_15"

record Level =
  price :: Price
  qty :: Qty

text \<open>
  Floating-point arithmetic and the conversions between \<open>double\<close> and \<open>uint64_t\<close>
  are the machine's, not the repository's: the functions that compute with doubles take
  them as a parameter, and nothing is assumed about how they round.
\<close>

record fp_ops =
  fp_mul :: "double \<Rightarrow> double \<Rightarrow> double"
  fp_add :: "double \<Rightarrow> double \<Rightarrow> double"
  fp_div :: "double \<Rightarrow> double \<Rightarrow> double"
  fp_of_u64 :: "u64 \<Rightarrow> double"
  fp_to_u64 :: "double \<Rightarrow> u64"

text \<open>\<open>Price::from_f64\<close>: \<open>Price(static_cast<uint64_t>(p * 100.0 + 0.5))\<close>.\<close>

definition from_f64 :: "fp_ops \<Rightarrow> double \<Rightarrow> Price" where
  "from_f64 fp p = Price (fp_to_u64 fp (fp_add fp (fp_mul fp p (Num 100)) (Num (1 / 2))))"

text \<open>\<open>Price::to_f64\<close>: \<open>static_cast<double>(raw) / 100.0\<close>.\<close>

definition to_f64 :: "fp_ops \<Rightarrow> Price \<Rightarrow> double" where
  "to_f64 fp p = fp_div fp (fp_of_u64 fp (raw p)) (Num 100)"

datatype Side = Bid | Ask

datatype UpdateType = Snapshot | Incremental

text \<open>
  \<open>struct Update\<close>: one struct with a type tag; \<open>side\<close> and \<open>level\<close> are read for
  an incremental update only, \<open>bids\<close> and \<open>asks\<close> for a snapshot only.
\<close>

record Update =
  type :: UpdateType
  timestamp :: u64
  side :: Side
  level :: Level
  bids :: "Level list"
  asks :: "Level list"

record BookNotification =
  update_timestamp :: u64
  engine_send_ns :: u64
  best_bid :: "Level option"
  best_ask :: "Level option"
  seq :: u64

section \<open>The order book (orderbook.h)\<close>

text \<open>
  \<open>std::map<uint64_t, double>\<close> is a finite map from raw price to quantity, ordered by
  key: \<open>m[k] = v\<close> is \<open>m(k \<mapsto> v)\<close>, \<open>erase(k)\<close> is \<open>m(k := None)\<close>, \<open>clear()\<close> gives
  the empty map, \<open>rbegin()\<close> is the entry at the greatest key and \<open>begin()\<close> the entry
  at the least key.
\<close>

text \<open>
  The fields \<open>bids_\<close>, \<open>asks_\<close>, \<open>cached_best_bid_\<close>, \<open>cached_best_ask_\<close> and
  \<open>seq_\<close> of the class (a name cannot end in an underscore here).
\<close>

record Orderbook =
  bids_m :: "u64 \<rightharpoonup> double"
  asks_m :: "u64 \<rightharpoonup> double"
  cached_best_bid :: "Level option"
  cached_best_ask :: "Level option"
  seq_ctr :: u64

text \<open>A freshly constructed book: both maps empty, no cached level, \<open>seq_ = 0\<close>.\<close>

definition new_book :: Orderbook where
  "new_book = \<lparr>bids_m = Map.empty, asks_m = Map.empty,
       cached_best_bid = None, cached_best_ask = None, seq_ctr = 0\<rparr>"

definition refresh_best_bid :: "Orderbook \<Rightarrow> Orderbook" where
  "refresh_best_bid b =
     (if dom (bids_m b) = {} then b\<lparr>cached_best_bid := None\<rparr>
      else let k = Max (dom (bids_m b))
           in b\<lparr>cached_best_bid := Some \<lparr>price = Price k, qty = Qty (the (bids_m b k))\<rparr>\<rparr>)"

definition refresh_best_ask :: "Orderbook \<Rightarrow> Orderbook" where
  "refresh_best_ask b =
     (if dom (asks_m b) = {} then b\<lparr>cached_best_ask := None\<rparr>
      else let k = Min (dom (asks_m b))
           in b\<lparr>cached_best_ask := Some \<lparr>price = Price k, qty = Qty (the (asks_m b k))\<rparr>\<rparr>)"

text \<open>One loop of \<open>apply_snapshot\<close>: insert every level whose quantity is not zero.\<close>

fun insert_levels :: "(u64 \<rightharpoonup> double) \<Rightarrow> Level list \<Rightarrow> (u64 \<rightharpoonup> double)" where
  "insert_levels m [] = m"
| "insert_levels m (l # ls) =
     insert_levels (if \<not> is_zero (qty l) then m(raw (price l) \<mapsto> qty_value (qty l)) else m) ls"

definition apply_snapshot :: "Level list \<Rightarrow> Level list \<Rightarrow> Orderbook \<Rightarrow> Orderbook" where
  "apply_snapshot bs as b =
     refresh_best_ask (refresh_best_bid
       (b\<lparr>bids_m := insert_levels Map.empty bs, asks_m := insert_levels Map.empty as\<rparr>))"

definition apply_incremental :: "Side \<Rightarrow> Level \<Rightarrow> Orderbook \<Rightarrow> Orderbook" where
  "apply_incremental sd lv b =
     (case sd of
        Bid \<Rightarrow>
          if is_zero (qty lv) then
            let b1 = b\<lparr>bids_m := (bids_m b)(raw (price lv) := None)\<rparr>
            in (case cached_best_bid b1 of
                  Some c \<Rightarrow> if price c = price lv then refresh_best_bid b1 else b1
                | None \<Rightarrow> b1)
          else
            let b1 = b\<lparr>bids_m := (bids_m b)(raw (price lv) \<mapsto> qty_value (qty lv))\<rparr>
            in (case cached_best_bid b1 of
                  None \<Rightarrow> b1\<lparr>cached_best_bid := Some lv\<rparr>
                | Some c \<Rightarrow> if raw (price lv) \<ge> raw (price c)
                            then b1\<lparr>cached_best_bid := Some lv\<rparr> else b1)
      | Ask \<Rightarrow>
          if is_zero (qty lv) then
            let b1 = b\<lparr>asks_m := (asks_m b)(raw (price lv) := None)\<rparr>
            in (case cached_best_ask b1 of
                  Some c \<Rightarrow> if price c = price lv then refresh_best_ask b1 else b1
                | None \<Rightarrow> b1)
          else
            let b1 = b\<lparr>asks_m := (asks_m b)(raw (price lv) \<mapsto> qty_value (qty lv))\<rparr>
            in (case cached_best_ask b1 of
                  None \<Rightarrow> b1\<lparr>cached_best_ask := Some lv\<rparr>
                | Some c \<Rightarrow> if raw (price lv) \<le> raw (price c)
                            then b1\<lparr>cached_best_ask := Some lv\<rparr> else b1))"

text \<open>
  \<open>Orderbook::apply\<close>: mutate by the update's type, pre-increment \<open>seq_\<close> (a
  \<open>uint64_t\<close>, so the increment is modulo \<open>2\<^sup>6\<^sup>4\<close>), and build the notification from
  the state as it then stands. The model returns the new book with the notification.
\<close>

definition apply_update :: "Update \<Rightarrow> u64 \<Rightarrow> Orderbook \<Rightarrow> Orderbook \<times> BookNotification" where
  "apply_update u send_ns b =
     (let b1 = (if type u = Snapshot then apply_snapshot (bids u) (asks u) b
                else apply_incremental (side u) (level u) b);
          b2 = b1\<lparr>seq_ctr := seq_ctr b1 + 1\<rparr>
      in (b2, \<lparr>update_timestamp = timestamp u, engine_send_ns = send_ns,
               best_bid = cached_best_bid b2, best_ask = cached_best_ask b2,
               seq = seq_ctr b2\<rparr>))"

text \<open>
  The driver's loop \<open>for (update : updates) notif = book.apply(update, now)\<close>: each
  update comes with the clock value sampled for it; the notifications are collected in
  order.
\<close>

fun run :: "Orderbook \<Rightarrow> (Update \<times> u64) list \<Rightarrow> Orderbook \<times> BookNotification list" where
  "run b [] = (b, [])"
| "run b ((u, send_ns) # us) =
     (let (b1, n) = apply_update u send_ns b;
          (b2, ns) = run b1 us
      in (b2, n # ns))"

section \<open>The SPSC ring (spsc_queue.h)\<close>

text \<open>
  \<open>template <typename T, size_t Capacity> class SPSCQueue\<close>. The template parameter
  \<open>Capacity\<close> (a 64-bit \<open>size_t\<close>) is the first argument of every function of the
  model. A slot holds its sequence number and its storage: \<open>None\<close> while no element
  is constructed there. The model is sequential: it describes calls that do not overlap
  in time, so the memory orders of the atomic loads and stores play no part.
\<close>

record 'a Slot =
  slot_seq :: u64
  storage :: "'a option"

record 'a SPSCQueue =
  head_pos :: u64
  tail_pos :: u64
  slots :: "'a Slot list"

text \<open>\<open>static_assert((Capacity & (Capacity - 1)) == 0, "Capacity must be power of 2")\<close>.\<close>

definition static_assert_capacity :: "u64 \<Rightarrow> bool" where
  "static_assert_capacity Capacity = ((Capacity AND (Capacity - 1)) = 0)"

definition MASK :: "u64 \<Rightarrow> u64" where
  "MASK Capacity = Capacity - 1"

text \<open>The constructor: \<open>head_ = tail_ = 0\<close> and \<open>slots_[i].seq = i\<close>.\<close>

definition new_queue :: "u64 \<Rightarrow> 'a SPSCQueue" where
  "new_queue Capacity =
     \<lparr>head_pos = 0, tail_pos = 0,
      slots = map (\<lambda>i. \<lparr>slot_seq = of_nat i, storage = None\<rparr>) [0..<unat Capacity]\<rparr>"

text \<open>
  \<open>try_push\<close> returns the queue with \<open>true\<close> or \<open>false\<close>. The slot index
  \<open>pos & MASK\<close> is at most \<open>Capacity - 1\<close>, so it is in range whenever the array has
  \<open>Capacity > 0\<close> slots.
\<close>

definition try_push :: "u64 \<Rightarrow> 'a \<Rightarrow> 'a SPSCQueue \<Rightarrow> 'a SPSCQueue \<times> bool" where
  "try_push Capacity item q =
     (let pos = head_pos q;
          i = unat (pos AND MASK Capacity);
          slot = slots q ! i
      in if slot_seq slot \<noteq> pos then (q, False)
         else (q\<lparr>head_pos := pos + 1,
                 slots := (slots q)[i := \<lparr>slot_seq = pos + 1, storage = Some item\<rparr>]\<rparr>, True))"

text \<open>
  \<open>try_pop\<close> returns the queue with \<open>std::nullopt\<close> (\<open>None\<close>) or the element moved
  out of the slot, whose storage is destroyed.
\<close>

definition try_pop :: "u64 \<Rightarrow> 'a SPSCQueue \<Rightarrow> 'a SPSCQueue \<times> 'a option" where
  "try_pop Capacity q =
     (let pos = tail_pos q;
          i = unat (pos AND MASK Capacity);
          slot = slots q ! i
      in if slot_seq slot \<noteq> pos + 1 then (q, None)
         else (q\<lparr>tail_pos := pos + 1,
                 slots := (slots q)[i := \<lparr>slot_seq = pos + Capacity, storage = None\<rparr>]\<rparr>,
               storage slot))"

text \<open>Consecutive \<open>try_push\<close> calls, one per element, and their results in order.\<close>

fun push_all :: "u64 \<Rightarrow> 'a list \<Rightarrow> 'a SPSCQueue \<Rightarrow> 'a SPSCQueue \<times> bool list" where
  "push_all Capacity [] q = (q, [])"
| "push_all Capacity (x # xs) q =
     (let (q1, ok) = try_push Capacity x q;
          (q2, oks) = push_all Capacity xs q1
      in (q2, ok # oks))"

text \<open>\<open>n\<close> consecutive \<open>try_pop\<close> calls and their results in order.\<close>

fun pop_n :: "u64 \<Rightarrow> nat \<Rightarrow> 'a SPSCQueue \<Rightarrow> 'a SPSCQueue \<times> 'a option list" where
  "pop_n Capacity 0 q = (q, [])"
| "pop_n Capacity (Suc n) q =
     (let (q1, r) = try_pop Capacity q;
          (q2, rs) = pop_n Capacity n q1
      in (q2, r # rs))"

section \<open>Latency statistics (strategy.h)\<close>

text \<open>
  \<open>struct StrategyStats\<close>; \<open>new_stats\<close> is the default-constructed value, with
  \<open>min_latency_ns = UINT64_MAX\<close>.
\<close>

record StrategyStats =
  count :: u64
  total_latency_ns :: u64
  min_latency_ns :: u64
  max_latency_ns :: u64
  latencies :: "u64 list"

definition new_stats :: StrategyStats where
  "new_stats = \<lparr>count = 0, total_latency_ns = 0, min_latency_ns = - 1,
                 max_latency_ns = 0, latencies = []\<rparr>"

text \<open>The member function \<open>record(lat)\<close>.\<close>

definition record_latency :: "u64 \<Rightarrow> StrategyStats \<Rightarrow> StrategyStats" where
  "record_latency lat s =
     \<lparr>count = count s + 1,
      total_latency_ns = total_latency_ns s + lat,
      min_latency_ns = (if lat < min_latency_ns s then lat else min_latency_ns s),
      max_latency_ns = (if lat > max_latency_ns s then lat else max_latency_ns s),
      latencies = latencies s @ [lat]\<rparr>"

definition avg_ns :: "StrategyStats \<Rightarrow> u64" where
  "avg_ns s = (if count s > 0 then total_latency_ns s div count s else 0)"

text \<open>
  \<open>percentile(p)\<close>: the index is \<open>static_cast<size_t>((p / 100.0) * (sorted.size() - 1))\<close>,
  clamped by \<open>std::min(idx, sorted.size() - 1)\<close>.
\<close>

definition percentile :: "fp_ops \<Rightarrow> double \<Rightarrow> StrategyStats \<Rightarrow> u64" where
  "percentile fp p s =
     (if latencies s = [] then 0
      else let sorted = sort (latencies s);
               last_idx = (of_nat (length sorted) :: u64) - 1;
               idx = fp_to_u64 fp (fp_mul fp (fp_div fp p (Num 100)) (fp_of_u64 fp last_idx))
           in sorted ! unat (min idx last_idx))"

definition median :: "fp_ops \<Rightarrow> StrategyStats \<Rightarrow> u64" where
  "median fp s = percentile fp (Num 50) s"

section \<open>The CSV reader (parser.h)\<close>

text \<open>
  What the source leaves to the C library and to the machine is a parameter of the
  parsing functions: the floating-point primitives, \<open>strtod\<close>, the indeterminate
  values of the scalar members \<open>timestamp\<close> and \<open>side\<close> of a local \<open>Update u;\<close>
  that is never assigned, and the byte that a read at the end of the mapped file finds.
\<close>

record parse_env =
  env_fp :: fp_ops
  strtod :: "string \<Rightarrow> double"
  uninit_timestamp :: u64
  uninit_side :: Side
  beyond_eof :: char

text \<open>
  A \<open>char\<close> promoted to \<open>int\<close>; \<open>char\<close> is taken as signed, as it is on x86-64 (it
  is unsigned on AArch64 Linux, which matters for bytes from 128 only).
\<close>

definition char_as_int :: "char \<Rightarrow> int" where
  "char_as_int c = (if (of_char c :: nat) < 128 then of_char c else of_char c - 256)"

text \<open>\<open>parse_u64\<close>: \<open>result = result * 10 + static_cast<uint64_t>(*p - '0')\<close>, no checks.\<close>

definition parse_u64 :: "string \<Rightarrow> u64" where
  "parse_u64 s =
     foldl (\<lambda>result c. result * 10 + word_of_int (char_as_int c - char_as_int CHR ''0'')) 0 s"

text \<open>\<open>parse_double\<close>: at most 63 bytes are copied into the buffer given to \<open>strtod\<close>.\<close>

definition parse_double :: "parse_env \<Rightarrow> string \<Rightarrow> double" where
  "parse_double env s = strtod env (take 63 s)"

text \<open>
  The local \<open>Update u;\<close> after \<open>u.type\<close> is assigned: \<open>level\<close> is default-constructed
  (\<open>Price()\<close> and \<open>Qty()\<close> are zero), the vectors are empty.
\<close>

definition local_Update :: "parse_env \<Rightarrow> UpdateType \<Rightarrow> Update" where
  "local_Update env t =
     \<lparr>type = t, timestamp = uninit_timestamp env, side = uninit_side env,
      level = \<lparr>price = Price 0, qty = Qty (Num 0)\<rparr>, bids = [], asks = []\<rparr>"

text \<open>
  \<open>*field_start\<close> when the current field is \<open>cur\<close> and \<open>rest\<close> is the line from the
  delimiter on: the first byte of the field, or the delimiter if the field is empty, or
  the byte stored at \<open>end\<close> if the line ends there.
\<close>

definition deref_field_start :: "string \<Rightarrow> string \<Rightarrow> char \<Rightarrow> char" where
  "deref_field_start cur rest beyond = (case cur @ rest of c # _ \<Rightarrow> c | [] \<Rightarrow> beyond)"

text \<open>The \<open>switch (field)\<close> of \<open>parse_incremental\<close>.\<close>

definition inc_field ::
  "parse_env \<Rightarrow> char \<Rightarrow> nat \<Rightarrow> string \<Rightarrow> string \<Rightarrow> Update \<Rightarrow> Update" where
  "inc_field env beyond field cur rest u =
     (if field = 3 then u\<lparr>timestamp := parse_u64 cur\<rparr>
      else if field = 4 then
        u\<lparr>side := (if deref_field_start cur rest beyond = CHR ''b'' then Bid else Ask)\<rparr>
      else if field = 7 then
        u\<lparr>level := (level u)\<lparr>price := from_f64 (env_fp env) (parse_double env cur)\<rparr>\<rparr>
      else if field = 8 then
        u\<lparr>level := (level u)\<lparr>qty := Qty (parse_double env cur)\<rparr>\<rparr>
      else u)"

text \<open>
  The \<open>for\<close> loop of \<open>parse_incremental\<close> over the bytes of the line and the position
  \<open>end\<close>: \<open>field\<close> counts the commas passed, \<open>cur\<close> is the text from \<open>field_start\<close>
  to \<open>p\<close>.
\<close>

fun inc_loop ::
  "parse_env \<Rightarrow> char \<Rightarrow> nat \<Rightarrow> string \<Rightarrow> string \<Rightarrow> Update \<Rightarrow> Update" where
  "inc_loop env beyond field cur [] u = inc_field env beyond field cur [] u"
| "inc_loop env beyond field cur (c # cs) u =
     (if c = CHR '',''
      then inc_loop env beyond (Suc field) [] cs (inc_field env beyond field cur (c # cs) u)
      else inc_loop env beyond field (cur @ [c]) cs u)"

text \<open>\<open>parse_incremental\<close> ends with \<open>out.push_back(std::move(u))\<close> on every path.\<close>

definition parse_incremental ::
  "parse_env \<Rightarrow> char \<Rightarrow> string \<Rightarrow> Update list \<Rightarrow> Update list" where
  "parse_incremental env beyond line out =
     out @ [inc_loop env beyond 0 [] line (local_Update env Incremental)]"

text \<open>
  The field splitter of \<open>parse_snapshot\<close>: a double quote (byte \<open>0x22\<close>) toggles
  \<open>in_quotes\<close> and stays in the field; a comma outside quotes ends the field.
\<close>

fun split_fields :: "bool \<Rightarrow> string \<Rightarrow> string \<Rightarrow> string list" where
  "split_fields in_quotes cur [] = [cur]"
| "split_fields in_quotes cur (c # cs) =
     (let in_quotes' = (if c = CHR 0x22 then \<not> in_quotes else in_quotes)
      in if c = CHR '','' \<and> \<not> in_quotes' then cur # split_fields in_quotes' [] cs
         else split_fields in_quotes' (cur @ [c]) cs)"

definition strip_quotes :: "string \<Rightarrow> string" where
  "strip_quotes sv =
     (if length sv \<ge> 2 \<and> hd sv = CHR 0x22 \<and> last sv = CHR 0x22
      then take (length sv - 2) (drop 1 sv) else sv)"

text \<open>A space or a tab (byte \<open>0x09\<close>).\<close>

definition is_blank :: "char \<Rightarrow> bool" where
  "is_blank c = (c = CHR '' '' \<or> c = CHR 0x09)"

text \<open>
  The \<open>while (p < end)\<close> loop of \<open>parse_levels_json\<close>; \<open>s\<close> is the text from \<open>p\<close> to
  \<open>end\<close>. After the scan for \<open>[\<close> and the \<open>++p\<close>, \<open>p >= end\<close> holds exactly when at
  most one byte was left.
\<close>

function levels_loop :: "parse_env \<Rightarrow> string \<Rightarrow> Level list \<Rightarrow> Level list" where
  "levels_loop env s levels =
     (if s = [] then levels
      else let s1 = dropWhile (\<lambda>c. c \<noteq> CHR ''['') s
           in if length s1 \<le> 1 then levels
              else let s2 = tl s1
                   in if hd s2 = CHR ''['' then levels_loop env s2 levels
                      else let s3 = dropWhile is_blank s2;
                               price = parse_double env
                                 (takeWhile (\<lambda>c. c \<noteq> CHR '','' \<and> c \<noteq> CHR '']'') s3);
                               s4 = dropWhile (\<lambda>c. c \<noteq> CHR '','' \<and> c \<noteq> CHR '']'') s3;
                               s5 = (if s4 \<noteq> [] \<and> hd s4 = CHR '','' then tl s4 else s4);
                               s6 = dropWhile is_blank s5;
                               size = parse_double env (takeWhile (\<lambda>c. c \<noteq> CHR '']'') s6);
                               s7 = dropWhile (\<lambda>c. c \<noteq> CHR '']'') s6;
                               s8 = (if s7 \<noteq> [] then tl s7 else s7)
                           in levels_loop env s8
                                (levels @ [\<lparr>price = from_f64 (env_fp env) price, qty = Qty size\<rparr>]))"
  by pat_completeness auto
termination
proof (relation "measure (\<lambda>(env, s, levels). length s)", goal_cases)
  case 1
  show ?case by simp
next
  case (2 env s levels s1 s2)
  have "length s1 \<le> length s"
    unfolding \<open>s1 = dropWhile (\<lambda>c. c \<noteq> CHR ''['') s\<close> by (rule length_dropWhile_le)
  with 2 show ?case by simp
next
  case (3 env s levels s1 s2 s3 price s4 s5 s6 size s7 s8)
  have "length s1 \<le> length s"
    unfolding \<open>s1 = dropWhile (\<lambda>c. c \<noteq> CHR ''['') s\<close> by (rule length_dropWhile_le)
  then have "length s2 < length s"
    using \<open>\<not> length s1 \<le> 1\<close> unfolding \<open>s2 = tl s1\<close> by simp
  moreover have "length s3 \<le> length s2"
    unfolding \<open>s3 = dropWhile is_blank s2\<close> by (rule length_dropWhile_le)
  moreover have "length s4 \<le> length s3"
    unfolding \<open>s4 = dropWhile (\<lambda>c. c \<noteq> CHR '','' \<and> c \<noteq> CHR '']'') s3\<close>
    by (rule length_dropWhile_le)
  moreover have "length s5 \<le> length s4"
    unfolding \<open>s5 = (if s4 \<noteq> [] \<and> hd s4 = CHR '','' then tl s4 else s4)\<close> by simp
  moreover have "length s6 \<le> length s5"
    unfolding \<open>s6 = dropWhile is_blank s5\<close> by (rule length_dropWhile_le)
  moreover have "length s7 \<le> length s6"
    unfolding \<open>s7 = dropWhile (\<lambda>c. c \<noteq> CHR '']'') s6\<close> by (rule length_dropWhile_le)
  moreover have "length s8 \<le> length s7"
    unfolding \<open>s8 = (if s7 \<noteq> [] then tl s7 else s7)\<close> by simp
  ultimately show ?case by simp
qed

definition parse_levels_json :: "parse_env \<Rightarrow> string \<Rightarrow> Level list" where
  "parse_levels_json env sv = levels_loop env sv []"

text \<open>\<open>parse_snapshot\<close>: \<open>if (fields.size() < 7) return;\<close> before anything is pushed.\<close>

definition parse_snapshot :: "parse_env \<Rightarrow> string \<Rightarrow> Update list \<Rightarrow> Update list" where
  "parse_snapshot env line out =
     (let fields = split_fields False [] line
      in if length fields < 7 then out
         else out @ [(local_Update env Snapshot)
                \<lparr>timestamp := parse_u64 (fields ! 3),
                 bids := parse_levels_json env (strip_quotes (fields ! 5)),
                 asks := parse_levels_json env (strip_quotes (fields ! 6))\<rparr>])"

text \<open>\<open>parse_line(start, end, out)\<close>; \<open>beyond\<close> is the byte stored at \<open>end\<close>.\<close>

definition parse_line :: "parse_env \<Rightarrow> char \<Rightarrow> string \<Rightarrow> Update list \<Rightarrow> Update list" where
  "parse_line env beyond line out =
     (case line of
        [] \<Rightarrow> out
      | c # _ \<Rightarrow> if c = CHR ''s'' then parse_snapshot env line out
                 else if c = CHR ''i'' then parse_incremental env beyond line out
                 else out)"

text \<open>\<open>skip_line\<close>: the text after the first line feed (byte \<open>0x0A\<close>), if there is one.\<close>

definition skip_line :: "string \<Rightarrow> string" where
  "skip_line s = (case dropWhile (\<lambda>c. c \<noteq> CHR 0x0A) s of [] \<Rightarrow> [] | _ # r \<Rightarrow> r)"

text \<open>
  The \<open>while (pos < end)\<close> loop of \<open>parse_file\<close>; \<open>s\<close> is the mapped text from \<open>pos\<close>
  on. A carriage return (byte \<open>0x0D\<close>) before the line feed is stripped, and an empty
  line is passed over.
\<close>

function lines_loop :: "parse_env \<Rightarrow> string \<Rightarrow> Update list \<Rightarrow> Update list" where
  "lines_loop env s updates =
     (if s = [] then updates
      else let line = takeWhile (\<lambda>c. c \<noteq> CHR 0x0A) s;
               rest = dropWhile (\<lambda>c. c \<noteq> CHR 0x0A) s;
               has_cr = (line \<noteq> [] \<and> last line = CHR 0x0D);
               content = (if has_cr then butlast line else line);
               beyond = (if has_cr then CHR 0x0D
                         else if rest \<noteq> [] then CHR 0x0A else beyond_eof env);
               s' = (case rest of [] \<Rightarrow> [] | _ # r \<Rightarrow> r)
           in if content = [] then lines_loop env s' updates
              else lines_loop env s' (parse_line env beyond content updates))"
  by pat_completeness auto
termination
proof (relation "measure (\<lambda>(env, s, updates). length s)", goal_cases)
  case 1
  show ?case by simp
next
  case (2 env s updates line rest has_cr content beyond s')
  have "length rest \<le> length s"
    unfolding \<open>rest = dropWhile (\<lambda>c. c \<noteq> CHR 0x0A) s\<close> by (rule length_dropWhile_le)
  then have "length s' < length s"
    using \<open>s \<noteq> []\<close> unfolding \<open>s' = (case rest of [] \<Rightarrow> [] | _ # r \<Rightarrow> r)\<close>
    by (cases rest) simp_all
  then show ?case by simp
next
  case (3 env s updates line rest has_cr content beyond s')
  have "length rest \<le> length s"
    unfolding \<open>rest = dropWhile (\<lambda>c. c \<noteq> CHR 0x0A) s\<close> by (rule length_dropWhile_le)
  then have "length s' < length s"
    using \<open>s \<noteq> []\<close> unfolding \<open>s' = (case rest of [] \<Rightarrow> [] | _ # r \<Rightarrow> r)\<close>
    by (cases rest) simp_all
  then show ?case by simp
qed

text \<open>
  \<open>parse_file\<close> once the file is mapped: the header line is skipped, then every line
  is parsed. (A file that cannot be opened or mapped gives the empty vector.)
\<close>

definition parse_buffer :: "parse_env \<Rightarrow> string \<Rightarrow> Update list" where
  "parse_buffer env data = lines_loop env (skip_line data) []"

section \<open>Predicates and example inputs\<close>

text \<open>
  The cached best bid agrees with the bid map: no cached level iff the map is empty,
  and otherwise the cached price is the greatest key and the cached quantity is the one
  stored there.
\<close>

definition bid_cache_ok :: "Orderbook \<Rightarrow> bool" where
  "bid_cache_ok b =
     (case cached_best_bid b of
        None \<Rightarrow> dom (bids_m b) = {}
      | Some l \<Rightarrow> dom (bids_m b) \<noteq> {} \<and> raw (price l) = Max (dom (bids_m b))
                  \<and> bids_m b (raw (price l)) = Some (qty_value (qty l)))"

text \<open>The same for the asks, with the least key.\<close>

definition ask_cache_ok :: "Orderbook \<Rightarrow> bool" where
  "ask_cache_ok b =
     (case cached_best_ask b of
        None \<Rightarrow> dom (asks_m b) = {}
      | Some l \<Rightarrow> dom (asks_m b) \<noteq> {} \<and> raw (price l) = Min (dom (asks_m b))
                  \<and> asks_m b (raw (price l)) = Some (qty_value (qty l)))"

definition cache_consistent :: "Orderbook \<Rightarrow> bool" where
  "cache_consistent b = (bid_cache_ok b \<and> ask_cache_ok b)"

text \<open>
  The ring after the elements \<open>xs\<close> were pushed into a fresh ring and the first \<open>j\<close> of
  them popped, written out slot by slot.
\<close>

definition ring_state :: "u64 \<Rightarrow> 'a list \<Rightarrow> nat \<Rightarrow> 'a SPSCQueue" where
  "ring_state Capacity xs j =
     \<lparr>head_pos = of_nat (length xs), tail_pos = of_nat j,
      slots = map (\<lambda>i. if i < j then \<lparr>slot_seq = of_nat i + Capacity, storage = None\<rparr>
                        else if i < length xs
                          then \<lparr>slot_seq = of_nat i + 1, storage = Some (xs ! i)\<rparr>
                        else \<lparr>slot_seq = of_nat i, storage = None\<rparr>) [0..<unat Capacity]\<rparr>"

text \<open>
  Any sequence of \<open>try_push\<close> and \<open>try_pop\<close> calls on a fresh ring, one after the
  other: \<open>ring_run\<close> is the ring they leave.
\<close>

datatype 'a ring_op = Push 'a | Pop

fun ring_step :: "u64 \<Rightarrow> 'a SPSCQueue \<Rightarrow> 'a ring_op \<Rightarrow> 'a SPSCQueue" where
  "ring_step Capacity q (Push x) = fst (try_push Capacity x q)"
| "ring_step Capacity q Pop = fst (try_pop Capacity q)"

definition ring_run :: "u64 \<Rightarrow> 'a ring_op list \<Rightarrow> 'a SPSCQueue" where
  "ring_run Capacity ops = foldl (ring_step Capacity) (new_queue Capacity) ops"

text \<open>
  The state of a ring after \<open>H\<close> successful pushes and \<open>T\<close> successful pops over a
  capacity of \<open>2\<^sup>k\<close>. Slot \<open>i\<close> serves the positions congruent to \<open>i\<close>; among them
  exactly one, \<open>p\<close>, lies in the window from \<open>T\<close> to \<open>T + 2\<^sup>k\<close>: the slot holds the
  element pushed at \<open>p\<close> with sequence number \<open>p + 1\<close> if that push has happened, and is
  free with sequence number \<open>p\<close> otherwise.
\<close>

definition slot_ok :: "nat \<Rightarrow> nat \<Rightarrow> nat \<Rightarrow> nat \<Rightarrow> 'a Slot \<Rightarrow> bool" where
  "slot_ok cap H T i sl =
     (\<exists>p. p mod cap = i \<and>
        ((T \<le> p \<and> p < H \<and> slot_seq sl = of_nat p + 1 \<and> storage sl \<noteq> None)
         \<or> (H \<le> p \<and> p < T + cap \<and> slot_seq sl = of_nat p)))"

definition ring_inv :: "nat \<Rightarrow> 'a SPSCQueue \<Rightarrow> nat \<Rightarrow> nat \<Rightarrow> bool" where
  "ring_inv k q H T =
     (T \<le> H \<and> H \<le> T + 2 ^ k \<and> head_pos q = of_nat H \<and> tail_pos q = of_nat T
      \<and> length (slots q) = 2 ^ k
      \<and> (\<forall>i < 2 ^ k. slot_ok (2 ^ k) H T i (slots q ! i)))"

text \<open>A level with a finite quantity.\<close>

definition lvl :: "u64 \<Rightarrow> real \<Rightarrow> Level" where
  "lvl p q = \<lparr>price = Price p, qty = Qty (Num q)\<rparr>"

text \<open>
  The snapshot of the specification's scenario A: bids \<open>100.00 @ 1\<close> and \<open>99.50 @ 2\<close>,
  asks \<open>100.50 @ 3\<close> and \<open>101.00 @ 4\<close>, timestamp 1000.
\<close>

definition scenario_A :: Update where
  "scenario_A = \<lparr>type = Snapshot, timestamp = 1000, side = Bid, level = lvl 0 0,
     bids = [lvl 10000 1, lvl 9950 2], asks = [lvl 10050 3, lvl 10100 4]\<rparr>"

text \<open>Scenario C: delete the ask at \<open>100.50\<close>, timestamp 1002.\<close>

definition scenario_C :: Update where
  "scenario_C = \<lparr>type = Incremental, timestamp = 1002, side = Ask, level = lvl 10050 0,
     bids = [], asks = []\<rparr>"

text \<open>Scenario D: delete the bid at \<open>100.00\<close>.\<close>

definition scenario_D :: Update where
  "scenario_D = \<lparr>type = Incremental, timestamp = 1003, side = Bid, level = lvl 10000 0,
     bids = [], asks = []\<rparr>"

text \<open>A deletion of the bid at \<open>99.00\<close>, a price that scenario A does not quote.\<close>

definition delete_bid_9900 :: Update where
  "delete_bid_9900 = \<lparr>type = Incremental, timestamp = 1004, side = Bid, level = lvl 9900 0,
     bids = [], asks = []\<rparr>"

text \<open>
  One instance of the floating-point primitives, for running \<open>percentile\<close> on
  concrete samples: the operations on finite values without any rounding, the
  conversion to \<open>uint64_t\<close> by truncation. The theorems below hold for every instance
  and do not depend on this one.
\<close>

fun unrounded :: "(real \<Rightarrow> real \<Rightarrow> real) \<Rightarrow> double \<Rightarrow> double \<Rightarrow> double" where
  "unrounded f (Num a) (Num b) = Num (f a b)"
| "unrounded f _ _ = NaN"

definition unrounded_fp :: fp_ops where
  "unrounded_fp =
     \<lparr>fp_mul = unrounded (*), fp_add = unrounded (+), fp_div = unrounded (/),
      fp_of_u64 = (\<lambda>w. Num (real (unat w))),
      fp_to_u64 = (\<lambda>d. case d of Num r \<Rightarrow> word_of_int (if 0 \<le> r then \<lfloor>r\<rfloor> else \<lceil>r\<rceil>)
                                | _ \<Rightarrow> 0)\<rparr>"

section \<open>The order book: cache and sequence number\<close>

lemma refresh_best_bid_frame [simp]:
  "bids_m (refresh_best_bid b) = bids_m b" "asks_m (refresh_best_bid b) = asks_m b"
  "cached_best_ask (refresh_best_bid b) = cached_best_ask b"
  "seq_ctr (refresh_best_bid b) = seq_ctr b"
  by (simp_all add: refresh_best_bid_def Let_def)

lemma refresh_best_ask_frame [simp]:
  "bids_m (refresh_best_ask b) = bids_m b" "asks_m (refresh_best_ask b) = asks_m b"
  "cached_best_bid (refresh_best_ask b) = cached_best_bid b"
  "seq_ctr (refresh_best_ask b) = seq_ctr b"
  by (simp_all add: refresh_best_ask_def Let_def)

lemma bid_cache_ok_refresh: "bid_cache_ok (refresh_best_bid b)"
proof (cases "dom (bids_m b) = {}")
  case True
  then show ?thesis by (simp add: bid_cache_ok_def refresh_best_bid_def)
next
  case False
  then have "Max (dom (bids_m b)) \<in> dom (bids_m b)" by (intro Max_in) simp_all
  then obtain v where "bids_m b (Max (dom (bids_m b))) = Some v" by blast
  with False show ?thesis by (simp add: bid_cache_ok_def refresh_best_bid_def Let_def)
qed

lemma ask_cache_ok_refresh: "ask_cache_ok (refresh_best_ask b)"
proof (cases "dom (asks_m b) = {}")
  case True
  then show ?thesis by (simp add: ask_cache_ok_def refresh_best_ask_def)
next
  case False
  then have "Min (dom (asks_m b)) \<in> dom (asks_m b)" by (intro Min_in) simp_all
  then obtain v where "asks_m b (Min (dom (asks_m b))) = Some v" by blast
  with False show ?thesis by (simp add: ask_cache_ok_def refresh_best_ask_def Let_def)
qed

text \<open>Each side's predicate reads that side's map and cache only.\<close>

lemma bid_cache_ok_cong:
  "bids_m b' = bids_m b \<Longrightarrow> cached_best_bid b' = cached_best_bid b \<Longrightarrow>
   bid_cache_ok b' = bid_cache_ok b"
  by (simp add: bid_cache_ok_def split: option.splits)

lemma ask_cache_ok_cong:
  "asks_m b' = asks_m b \<Longrightarrow> cached_best_ask b' = cached_best_ask b \<Longrightarrow>
   ask_cache_ok b' = ask_cache_ok b"
  by (simp add: ask_cache_ok_def split: option.splits)

lemma cache_consistent_seq [simp]:
  "cache_consistent (b\<lparr>seq_ctr := s\<rparr>) = cache_consistent b"
  by (simp add: cache_consistent_def bid_cache_ok_def ask_cache_ok_def cong: option.case_cong)

lemma apply_snapshot_ok: "cache_consistent (apply_snapshot bs as b)"
  unfolding apply_snapshot_def cache_consistent_def
  by (simp add: ask_cache_ok_refresh bid_cache_ok_refresh
        bid_cache_ok_cong [of "refresh_best_ask b'" "b'" for b'])

text \<open>Erasing a key other than the extremum keeps the extremum.\<close>

lemma Max_remove_other:
  fixes A :: "u64 set"
  assumes "A \<noteq> {}" "k \<noteq> Max A"
  shows "A - {k} \<noteq> {}" "Max (A - {k}) = Max A"
proof -
  have m: "Max A \<in> A" using assms(1) by (intro Max_in) simp_all
  then show "A - {k} \<noteq> {}" using assms(2) by auto
  show "Max (A - {k}) = Max A"
  proof (rule Max_eqI)
    show "finite (A - {k})" by simp
    show "\<And>y. y \<in> A - {k} \<Longrightarrow> y \<le> Max A" by simp
    show "Max A \<in> A - {k}" using m assms(2) by auto
  qed
qed

lemma Min_remove_other:
  fixes A :: "u64 set"
  assumes "A \<noteq> {}" "k \<noteq> Min A"
  shows "A - {k} \<noteq> {}" "Min (A - {k}) = Min A"
proof -
  have m: "Min A \<in> A" using assms(1) by (intro Min_in) simp_all
  then show "A - {k} \<noteq> {}" using assms(2) by auto
  show "Min (A - {k}) = Min A"
  proof (rule Min_eqI)
    show "finite (A - {k})" by simp
    show "\<And>y. y \<in> A - {k} \<Longrightarrow> y \<ge> Min A" by simp
    show "Min A \<in> A - {k}" using m assms(2) by auto
  qed
qed

lemma apply_incremental_bid_ok:
  assumes "bid_cache_ok b"
  shows "bid_cache_ok (apply_incremental Bid lv b)"
proof (cases "is_zero (qty lv)")
  case True
  show ?thesis
  proof (cases "cached_best_bid b")
    case None
    with assms True show ?thesis by (simp add: apply_incremental_def bid_cache_ok_def)
  next
    case (Some c)
    show ?thesis
    proof (cases "price c = price lv")
      case eq: True
      have "apply_incremental Bid lv b
            = refresh_best_bid (b\<lparr>bids_m := (bids_m b)(raw (price lv) := None)\<rparr>)"
        using True Some eq by (simp add: apply_incremental_def)
      then show ?thesis by (simp add: bid_cache_ok_refresh)
    next
      case False
      have d: "dom (bids_m b) \<noteq> {}" and mx: "raw (price c) = Max (dom (bids_m b))"
        and st: "bids_m b (Max (dom (bids_m b))) = Some (qty_value (qty c))"
        using assms Some by (auto simp: bid_cache_ok_def)
      have ne: "raw (price lv) \<noteq> Max (dom (bids_m b))"
        using False mx by (cases "price c"; cases "price lv") auto
      from Max_remove_other [OF d ne] Some True False ne st mx show ?thesis
        by (simp add: apply_incremental_def bid_cache_ok_def)
    qed
  qed
next
  case False
  show ?thesis
  proof (cases "cached_best_bid b")
    case None
    with assms False show ?thesis by (simp add: apply_incremental_def bid_cache_ok_def)
  next
    case (Some c)
    then have d: "dom (bids_m b) \<noteq> {}" and mx: "raw (price c) = Max (dom (bids_m b))"
      and st: "bids_m b (raw (price c)) = Some (qty_value (qty c))"
      using assms by (auto simp: bid_cache_ok_def)
    have M: "Max (insert (raw (price lv)) (dom (bids_m b)))
             = max (raw (price lv)) (Max (dom (bids_m b)))"
      using d by simp
    show ?thesis
    proof (cases "raw (price lv) \<ge> raw (price c)")
      case True
      with False Some M mx show ?thesis
        by (simp add: apply_incremental_def bid_cache_ok_def max_def)
    next
      case lt: False
      with False Some M mx st show ?thesis
        by (auto simp add: apply_incremental_def bid_cache_ok_def max_def)
    qed
  qed
qed

lemma apply_incremental_ask_ok:
  assumes "ask_cache_ok b"
  shows "ask_cache_ok (apply_incremental Ask lv b)"
proof (cases "is_zero (qty lv)")
  case True
  show ?thesis
  proof (cases "cached_best_ask b")
    case None
    with assms True show ?thesis by (simp add: apply_incremental_def ask_cache_ok_def)
  next
    case (Some c)
    show ?thesis
    proof (cases "price c = price lv")
      case eq: True
      have "apply_incremental Ask lv b
            = refresh_best_ask (b\<lparr>asks_m := (asks_m b)(raw (price lv) := None)\<rparr>)"
        using True Some eq by (simp add: apply_incremental_def)
      then show ?thesis by (simp add: ask_cache_ok_refresh)
    next
      case False
      have d: "dom (asks_m b) \<noteq> {}" and mx: "raw (price c) = Min (dom (asks_m b))"
        and st: "asks_m b (Min (dom (asks_m b))) = Some (qty_value (qty c))"
        using assms Some by (auto simp: ask_cache_ok_def)
      have ne: "raw (price lv) \<noteq> Min (dom (asks_m b))"
        using False mx by (cases "price c"; cases "price lv") auto
      from Min_remove_other [OF d ne] Some True False ne st mx show ?thesis
        by (simp add: apply_incremental_def ask_cache_ok_def)
    qed
  qed
next
  case False
  show ?thesis
  proof (cases "cached_best_ask b")
    case None
    with assms False show ?thesis by (simp add: apply_incremental_def ask_cache_ok_def)
  next
    case (Some c)
    then have d: "dom (asks_m b) \<noteq> {}" and mx: "raw (price c) = Min (dom (asks_m b))"
      and st: "asks_m b (raw (price c)) = Some (qty_value (qty c))"
      using assms by (auto simp: ask_cache_ok_def)
    have M: "Min (insert (raw (price lv)) (dom (asks_m b)))
             = min (raw (price lv)) (Min (dom (asks_m b)))"
      using d by simp
    show ?thesis
    proof (cases "raw (price lv) \<le> raw (price c)")
      case True
      with False Some M mx show ?thesis
        by (simp add: apply_incremental_def ask_cache_ok_def min_def)
    next
      case gt: False
      with False Some M mx st show ?thesis
        by (auto simp add: apply_incremental_def ask_cache_ok_def min_def)
    qed
  qed
qed

lemma apply_incremental_frame:
  "asks_m (apply_incremental Bid lv b) = asks_m b"
  "cached_best_ask (apply_incremental Bid lv b) = cached_best_ask b"
  "bids_m (apply_incremental Ask lv b) = bids_m b"
  "cached_best_bid (apply_incremental Ask lv b) = cached_best_bid b"
  "seq_ctr (apply_incremental sd lv b) = seq_ctr b"
  by (simp_all add: apply_incremental_def Let_def split: option.splits Side.splits)

lemma apply_snapshot_seq: "seq_ctr (apply_snapshot bs as b) = seq_ctr b"
  by (simp add: apply_snapshot_def)

lemma apply_incremental_ok:
  assumes "cache_consistent b"
  shows "cache_consistent (apply_incremental sd lv b)"
proof (cases sd)
  case Bid
  with assms show ?thesis
    using apply_incremental_bid_ok [of b lv]
      ask_cache_ok_cong [OF apply_incremental_frame(1) apply_incremental_frame(2), of lv b]
    by (simp add: cache_consistent_def)
next
  case Ask
  with assms show ?thesis
    using apply_incremental_ask_ok [of b lv]
      bid_cache_ok_cong [OF apply_incremental_frame(3) apply_incremental_frame(4), of lv b]
    by (simp add: cache_consistent_def)
qed

lemma apply_update_ok:
  assumes "cache_consistent b"
  shows "cache_consistent (fst (apply_update u send_ns b))"
proof -
  let ?b1 = "if type u = Snapshot then apply_snapshot (bids u) (asks u) b
             else apply_incremental (side u) (level u) b"
  have "cache_consistent ?b1"
    using assms apply_incremental_ok apply_snapshot_ok by simp
  then show ?thesis
    by (simp add: apply_update_def Let_def)
qed

lemma new_book_ok: "cache_consistent new_book"
  by (simp add: cache_consistent_def bid_cache_ok_def ask_cache_ok_def new_book_def)

lemma run_ok: "cache_consistent b \<Longrightarrow> cache_consistent (fst (run b us))"
proof (induction us arbitrary: b)
  case Nil
  then show ?case by simp
next
  case (Cons x us)
  obtain u s where x: "x = (u, s)" by (cases x)
  have "cache_consistent (fst (apply_update u s b))"
    using Cons.prems by (rule apply_update_ok)
  from Cons.IH [OF this] show ?case by (simp add: x split_beta)
qed

text \<open>Evaluating the example updates.\<close>

lemma is_zero_lvl [simp]: "is_zero (qty (lvl p q)) = (q \<le> 2535301200456459 / 2 ^ 101)"
  by (simp add: is_zero_def lvl_def lit_1e_15_def)

lemma after_scenario_A:
  "apply_update scenario_A t new_book =
     (\<lparr>bids_m = [10000 \<mapsto> Num 1, 9950 \<mapsto> Num 2], asks_m = [10050 \<mapsto> Num 3, 10100 \<mapsto> Num 4],
       cached_best_bid = Some (lvl 10000 1), cached_best_ask = Some (lvl 10050 3), seq_ctr = 1\<rparr>,
      \<lparr>update_timestamp = 1000, engine_send_ns = t, best_bid = Some (lvl 10000 1),
       best_ask = Some (lvl 10050 3), seq = 1\<rparr>)"
  by (simp add: apply_update_def scenario_A_def new_book_def apply_snapshot_def
        refresh_best_bid_def refresh_best_ask_def Let_def)
     (simp add: lvl_def)

lemma after_scenario_A_C:
  "fst (run new_book [(scenario_A, t1), (scenario_C, t2)]) =
     \<lparr>bids_m = [10000 \<mapsto> Num 1, 9950 \<mapsto> Num 2], asks_m = [10100 \<mapsto> Num 4],
      cached_best_bid = Some (lvl 10000 1), cached_best_ask = Some (lvl 10100 4), seq_ctr = 2\<rparr>"
proof -
  have "fst (run new_book [(scenario_A, t1), (scenario_C, t2)])
        = fst (apply_update scenario_C t2 (fst (apply_update scenario_A t1 new_book)))"
    by (simp add: split_beta)
  also have "\<dots> = fst (apply_update scenario_C t2
      \<lparr>bids_m = [10000 \<mapsto> Num 1, 9950 \<mapsto> Num 2], asks_m = [10050 \<mapsto> Num 3, 10100 \<mapsto> Num 4],
       cached_best_bid = Some (lvl 10000 1), cached_best_ask = Some (lvl 10050 3), seq_ctr = 1\<rparr>)"
    by (simp only: after_scenario_A fst_conv)
  also have "\<dots> = \<lparr>bids_m = [10000 \<mapsto> Num 1, 9950 \<mapsto> Num 2], asks_m = [10100 \<mapsto> Num 4],
      cached_best_bid = Some (lvl 10000 1), cached_best_ask = Some (lvl 10100 4), seq_ctr = 2\<rparr>"
  proof -
    have "([10050 \<mapsto> Num 3, 10100 \<mapsto> Num 4] :: u64 \<rightharpoonup> double)(10050 := None)
          = [10100 \<mapsto> Num 4]"
      by (rule ext) simp
    then show ?thesis
      by (simp add: apply_update_def scenario_C_def apply_incremental_def
            refresh_best_ask_def Let_def insert_Diff_if)
         (simp add: lvl_def)
  qed
  finally show ?thesis .
qed

text \<open>
  Claim C1. Run any finite sequence of updates from the empty book and stop after any
  number \<open>k\<close> of them: the cached best bid is absent iff the bid map is empty and is
  otherwise the entry at the greatest bid key with the quantity stored there, and the
  cached best ask likewise with the least ask key.
\<close>

theorem cache_consistent_after_each_apply:
  "cache_consistent (fst (run new_book (take k us)))"
  by (rule run_ok [OF new_book_ok])

theorem cache_consistent_after_each_apply_witness:
  "cache_consistent (fst (run new_book (take 2 [(scenario_A, 5), (scenario_C, 6)])))
   \<and> cached_best_ask (fst (run new_book (take 2 [(scenario_A, 5), (scenario_C, 6)])))
       = Some (lvl 10100 4)
   \<and> Min (dom (asks_m (fst (run new_book (take 2 [(scenario_A, 5), (scenario_C, 6)]))))) = 10100"
proof -
  have t: "take 2 [(scenario_A, 5 :: u64), (scenario_C, 6)] = [(scenario_A, 5), (scenario_C, 6)]"
    by simp
  show ?thesis
    using cache_consistent_after_each_apply [of 2 "[(scenario_A, 5), (scenario_C, 6)]"]
    unfolding t by (simp only: after_scenario_A_C) simp
qed


lemma apply_update_seq_ctr: "seq_ctr (fst (apply_update u send_ns b)) = seq_ctr b + 1"
  by (simp add: apply_update_def Let_def apply_snapshot_seq apply_incremental_frame)

lemma apply_update_seq: "seq (snd (apply_update u send_ns b)) = seq_ctr b + 1"
  by (simp add: apply_update_def Let_def apply_snapshot_seq apply_incremental_frame)

lemma run_length: "length (snd (run b us)) = length us"
  by (induction us arbitrary: b) (auto simp: split_beta)

lemma run_seq_ctr: "seq_ctr (fst (run b us)) = seq_ctr b + of_nat (length us)"
  by (induction us arbitrary: b) (auto simp: split_beta apply_update_seq_ctr)

lemma run_seq_nth:
  "i < length us \<Longrightarrow> seq (snd (run b us) ! i) = seq_ctr b + of_nat (Suc i)"
proof (induction us arbitrary: b i)
  case Nil
  then show ?case by simp
next
  case (Cons x us)
  obtain u s where x: "x = (u, s)" by (cases x)
  show ?case
  proof (cases i)
    case 0
    then show ?thesis by (simp add: x split_beta apply_update_seq)
  next
    case (Suc j)
    with Cons.prems have "j < length us" by simp
    from Cons.IH [OF this, of "fst (apply_update u s b)"] Suc show ?thesis
      by (simp add: x split_beta apply_update_seq_ctr)
  qed
qed

text \<open>
  Claim C2, as amended. Every call of \<open>apply\<close> adds one to \<open>seq_\<close> (a \<open>uint64_t\<close>, so
  modulo \<open>2\<^sup>6\<^sup>4\<close>) and the notification carries the new value; over a run of
  \<open>n < 2\<^sup>6\<^sup>4\<close> applies from a fresh book the notifications carry the values
  \<open>1, 2, \<dots>, n\<close> in this order, so without gaps or repeats.
\<close>

theorem seq_values_bounded_run:
  assumes "length us < 2 ^ 64"
  shows "seq_ctr (fst (apply_update u send_ns b)) = seq_ctr b + 1
       \<and> seq (snd (apply_update u send_ns b)) = seq_ctr (fst (apply_update u send_ns b))
       \<and> map (\<lambda>n. unat (seq n)) (snd (run new_book us)) = [1..<Suc (length us)]
       \<and> unat (seq_ctr (fst (run new_book us))) = length us"
proof -
  have "map (\<lambda>n. unat (seq n)) (snd (run new_book us)) = [1..<Suc (length us)]"
  proof (rule nth_equalityI)
    show "length (map (\<lambda>n. unat (seq n)) (snd (run new_book us))) = length [1..<Suc (length us)]"
      by (simp only: length_map run_length length_upt diff_Suc_1)
  next
    fix i
    assume "i < length (map (\<lambda>n. unat (seq n)) (snd (run new_book us)))"
    then have i: "i < length us" by (simp add: run_length)
    then have "Suc i < 2 ^ 64" using assms by simp
    then have "unat (of_nat (Suc i) :: u64) = Suc i" by (simp only: unat_of_nat) simp
    with i show "map (\<lambda>n. unat (seq n)) (snd (run new_book us)) ! i = [1..<Suc (length us)] ! i"
      by (simp add: run_length run_seq_nth new_book_def del: of_nat_Suc upt_Suc)
  qed
  moreover have "unat (seq_ctr (fst (run new_book us))) = length us"
    using assms by (simp add: run_seq_ctr new_book_def unat_of_nat)
  ultimately show ?thesis by (simp add: apply_update_seq_ctr apply_update_seq)
qed

theorem seq_values_bounded_run_witness:
  "length [(scenario_A, 5 :: u64), (scenario_C, 6)] < 2 ^ 64
   \<and> map (\<lambda>n. unat (seq n)) (snd (run new_book [(scenario_A, 5), (scenario_C, 6)])) = [1, 2]
   \<and> unat (seq_ctr (fst (run new_book [(scenario_A, 5), (scenario_C, 6)]))) = 2"
  using seq_values_bounded_run [of "[(scenario_A, 5), (scenario_C, 6)]"]
  by (simp add: upt_rec)

text \<open>
  The claim as stated fails at the end of the counter's range: in a run of \<open>2\<^sup>6\<^sup>4\<close>
  applies from a fresh book, the last notification carries \<open>0\<close> and not \<open>2\<^sup>6\<^sup>4\<close>.
\<close>

theorem seq_wraps_counterexample:
  "length (snd (run new_book (replicate (2 ^ 64) (scenario_D, 0)))) = 2 ^ 64
   \<and> seq (last (snd (run new_book (replicate (2 ^ 64) (scenario_D, 0))))) = 0"
proof -
  let ?us = "replicate (2 ^ 64) (scenario_D, 0 :: u64)"
  have len: "length ?us = 2 ^ 64" by (simp only: length_replicate)
  have l2: "length (snd (run new_book ?us)) = 2 ^ 64" by (simp only: run_length len)
  then have ne: "snd (run new_book ?us) \<noteq> []" by auto
  have "last (snd (run new_book ?us)) = snd (run new_book ?us) ! (2 ^ 64 - 1)"
    using last_conv_nth [OF ne] by (simp only: l2)
  moreover have "seq (snd (run new_book ?us) ! (2 ^ 64 - 1))
                 = seq_ctr new_book + of_nat (Suc (2 ^ 64 - 1))"
    by (rule run_seq_nth) (simp only: len, simp)
  moreover have "seq_ctr new_book + of_nat (Suc (2 ^ 64 - 1)) = (0 :: u64)"
    by (simp add: new_book_def)
  ultimately show ?thesis using l2 by (simp only:)
qed

text \<open>
  Claim C3. For every book, update and \<open>send_ns\<close>, \<open>apply\<close> returns (the model is a
  total function without an error result) a notification whose \<open>update_timestamp\<close> is
  the update's timestamp, whose \<open>engine_send_ns\<close> is \<open>send_ns\<close>, whose \<open>best_bid\<close> and
  \<open>best_ask\<close> are the caches of the book as \<open>apply\<close> leaves it, and whose \<open>seq\<close> is the
  incremented counter, which is also the book's new counter.
\<close>

theorem apply_notification:
  "snd (apply_update u send_ns b) =
     \<lparr>update_timestamp = timestamp u, engine_send_ns = send_ns,
      best_bid = cached_best_bid (fst (apply_update u send_ns b)),
      best_ask = cached_best_ask (fst (apply_update u send_ns b)),
      seq = seq_ctr b + 1\<rparr>
   \<and> seq_ctr (fst (apply_update u send_ns b)) = seq_ctr b + 1"
  by (simp add: apply_update_def Let_def apply_snapshot_seq apply_incremental_frame)

theorem apply_notification_witness:
  "snd (apply_update scenario_A 7 new_book) =
     \<lparr>update_timestamp = 1000, engine_send_ns = 7, best_bid = Some (lvl 10000 1),
      best_ask = Some (lvl 10050 3), seq = 1\<rparr>"
  using apply_notification [of scenario_A 7 new_book]
  by (simp add: after_scenario_A)

text \<open>
  Claim C6. Apply a snapshot update \<open>s\<close> to any book, and apply it again: the second
  apply leaves both maps and both caches as the first left them, and the second
  notification has the timestamp, best bid and best ask of the first; its \<open>seq\<close> is one
  more, and each \<open>engine_send_ns\<close> is the value passed to that call.
\<close>

theorem snapshot_idempotent:
  assumes "type s = Snapshot"
  shows "(let (b1, n1) = apply_update s t1 b;
              (b2, n2) = apply_update s t2 b1
          in bids_m b2 = bids_m b1 \<and> asks_m b2 = asks_m b1
           \<and> cached_best_bid b2 = cached_best_bid b1 \<and> cached_best_ask b2 = cached_best_ask b1
           \<and> update_timestamp n2 = update_timestamp n1
           \<and> best_bid n2 = best_bid n1 \<and> best_ask n2 = best_ask n1
           \<and> seq n2 = seq n1 + 1 \<and> seq n2 \<noteq> seq n1
           \<and> engine_send_ns n1 = t1 \<and> engine_send_ns n2 = t2)"
  using assms
  by (simp add: apply_update_def Let_def apply_snapshot_def refresh_best_bid_def
        refresh_best_ask_def)

theorem snapshot_idempotent_witness:
  "type scenario_A = Snapshot
   \<and> fst (apply_update scenario_A 8 (fst (apply_update scenario_A 7 new_book)))
       = (fst (apply_update scenario_A 7 new_book))\<lparr>seq_ctr := 2\<rparr>
   \<and> snd (apply_update scenario_A 8 (fst (apply_update scenario_A 7 new_book)))
       = (snd (apply_update scenario_A 7 new_book))\<lparr>engine_send_ns := 8, seq := 2\<rparr>"
proof -
  have t: "type scenario_A = Snapshot" by (simp add: scenario_A_def)
  have s: "seq_ctr (fst (apply_update scenario_A 8 (fst (apply_update scenario_A 7 new_book)))) = 2"
    by (simp add: apply_update_seq_ctr new_book_def)
  from snapshot_idempotent [OF t, of 7 new_book 8] t s show ?thesis
    by (simp add: split_beta Orderbook.equality BookNotification.equality
          apply_update_seq after_scenario_A)
qed

text \<open>
  Claim C7. In a book whose caches are consistent with its maps, an incremental update
  with a zero quantity at a price that is not a key of its side's map changes nothing
  but the counter: the book after \<open>apply\<close> is the book before with \<open>seq_\<close> incremented.
\<close>

theorem delete_absent_price:
  assumes "cache_consistent b" and "type u = Incremental" and "is_zero (qty (level u))"
    and "(case side u of Bid \<Rightarrow> bids_m b | Ask \<Rightarrow> asks_m b) (raw (price (level u))) = None"
  shows "fst (apply_update u send_ns b) = b\<lparr>seq_ctr := seq_ctr b + 1\<rparr>"
proof (cases "side u")
  case Bid
  with assms(4) have absent: "bids_m b (raw (price (level u))) = None" by simp
  then have same: "(bids_m b)(raw (price (level u)) := None) = bids_m b"
    by (rule fun_upd_idem)
  have nohit: "cached_best_bid b = Some c \<Longrightarrow> price c \<noteq> price (level u)" for c
    using assms(1) absent by (auto simp: cache_consistent_def bid_cache_ok_def)
  show ?thesis using assms(2,3) Bid same nohit
    by (auto simp: apply_update_def apply_incremental_def split: option.splits)
next
  case Ask
  with assms(4) have absent: "asks_m b (raw (price (level u))) = None" by simp
  then have same: "(asks_m b)(raw (price (level u)) := None) = asks_m b"
    by (rule fun_upd_idem)
  have nohit: "cached_best_ask b = Some c \<Longrightarrow> price c \<noteq> price (level u)" for c
    using assms(1) absent by (auto simp: cache_consistent_def ask_cache_ok_def)
  show ?thesis using assms(2,3) Ask same nohit
    by (auto simp: apply_update_def apply_incremental_def split: option.splits)
qed

theorem delete_absent_price_witness:
  "cache_consistent (fst (apply_update scenario_A 7 new_book))
   \<and> type delete_bid_9900 = Incremental \<and> is_zero (qty (level delete_bid_9900))
   \<and> bids_m (fst (apply_update scenario_A 7 new_book)) (raw (price (level delete_bid_9900))) = None
   \<and> fst (apply_update delete_bid_9900 8 (fst (apply_update scenario_A 7 new_book)))
       = \<lparr>bids_m = [10000 \<mapsto> Num 1, 9950 \<mapsto> Num 2], asks_m = [10050 \<mapsto> Num 3, 10100 \<mapsto> Num 4],
          cached_best_bid = Some (lvl 10000 1), cached_best_ask = Some (lvl 10050 3),
          seq_ctr = 2\<rparr>"
proof -
  have c: "cache_consistent (fst (apply_update scenario_A 7 new_book))"
    by (rule apply_update_ok [OF new_book_ok])
  have t: "type delete_bid_9900 = Incremental" by (simp add: delete_bid_9900_def)
  have z: "is_zero (qty (level delete_bid_9900))" by (simp add: delete_bid_9900_def)
  have a: "(case side delete_bid_9900 of Bid \<Rightarrow> bids_m (fst (apply_update scenario_A 7 new_book))
             | Ask \<Rightarrow> asks_m (fst (apply_update scenario_A 7 new_book)))
           (raw (price (level delete_bid_9900))) = None"
    by (simp add: delete_bid_9900_def after_scenario_A lvl_def)
  from delete_absent_price [OF c t z a, of 8] c t z a show ?thesis
    by (simp add: delete_bid_9900_def after_scenario_A lvl_def)
qed


section \<open>The ring: FIFO order and fullness\<close>

text \<open>A nonzero capacity that passes the \<open>static_assert\<close> is a power of two.\<close>

lemma nat_and_pred_zero:
  fixes n :: nat
  shows "0 < n \<Longrightarrow> n AND (n - 1) = 0 \<Longrightarrow> \<exists>k. n = 2 ^ k"
proof (induction n rule: less_induct)
  case (less n)
  have rec: "n AND (n - 1) = of_bool (odd n \<and> odd (n - 1)) + 2 * ((n div 2) AND ((n - 1) div 2))"
    by (rule and_nat_rec)
  show ?case
  proof (cases "even n")
    case True
    then obtain j where j: "n = 2 * j" by (elim evenE)
    with less.prems have jpos: "0 < j" by simp
    have "(n - 1) div 2 = j - 1" using j jpos by (cases j) simp_all
    moreover have "n div 2 = j" using j by simp
    ultimately have "j AND (j - 1) = 0" using rec less.prems(2) True by simp
    moreover have "j < n" using j jpos by simp
    ultimately obtain k where "j = 2 ^ k" using less.IH jpos by blast
    then have "n = 2 ^ Suc k" using j by simp
    then show ?thesis by blast
  next
    case False
    then obtain j where j: "n = 2 * j + 1" by (elim oddE)
    from rec have "n AND (n - 1) = 2 * j" using j by simp
    with less.prems(2) have "j = 0" by simp
    then have "n = 2 ^ 0" using j by simp
    then show ?thesis by blast
  qed
qed

lemma pow2_of_static_assert:
  assumes "static_assert_capacity Capacity" "Capacity \<noteq> 0"
  shows "\<exists>k<64. Capacity = 2 ^ k"
proof -
  have z: "Capacity AND (Capacity - 1) = 0"
    using assms(1) by (simp add: static_assert_capacity_def)
  have pos: "0 < unat Capacity" using assms(2) by (simp add: unat_gt_0)
  have "unat (Capacity AND (Capacity - 1)) = unat Capacity AND unat (Capacity - 1)"
    by (simp add: unsigned_and_eq)
  moreover have "unat (Capacity - 1) = unat Capacity - 1"
    using assms(2) by (simp add: unat_minus_one)
  ultimately have "unat Capacity AND (unat Capacity - 1) = 0" using z by simp
  with pos obtain k where k: "unat Capacity = 2 ^ k" using nat_and_pred_zero by blast
  have "(2::nat) ^ k < 2 ^ LENGTH(64)"
    using unsigned_less [of Capacity, where ?'a = nat] unfolding k by simp
  then have "k < LENGTH(64)" by (rule power_less_imp_less_exp [rotated]) simp
  then have "k < 64" by simp
  moreover have "Capacity = of_nat (unat Capacity)" by simp
  then have "Capacity = 2 ^ k" unfolding k by simp
  ultimately show ?thesis by blast
qed

lemma pow2_and_mask: "(2::u64) ^ k AND mask k = 0"
  by (metis word_mod_2p_is_mask word_gt_0 zero_and_eq mod_word_self)

lemma static_assert_pow2: "static_assert_capacity (2 ^ k)"
  by (simp add: static_assert_capacity_def pow2_and_mask flip: mask_eq_exp_minus_1)

lemma pow2_lt_64: "k < 64 \<Longrightarrow> (2::nat) ^ k < 2 ^ 64"
  by (rule power_strict_increasing) simp_all

lemma unat_of_nat64: "n < 2 ^ 64 \<Longrightarrow> unat (of_nat n :: u64) = n"
  by (simp add: unat_of_nat)

lemma unat_pow2:
  assumes "k < 64"
  shows "unat ((2::u64) ^ k) = 2 ^ k"
proof -
  have "unat (of_nat (2 ^ k) :: u64) = 2 ^ k"
    using pow2_lt_64 [OF assms] by (rule unat_of_nat64)
  then show ?thesis by simp
qed

lemma one_neq_pow2:
  assumes "k < 64" "0 < k"
  shows "(1::u64) \<noteq> 2 ^ k"
proof
  assume "(1::u64) = 2 ^ k"
  then have "unat (1::u64) = unat ((2::u64) ^ k)" by simp
  then have "(2::nat) ^ k = 2 ^ 0" using unat_pow2 [OF assms(1)] by simp
  then have "k = 0" by simp
  then show False using assms(2) by simp
qed

text \<open>A position below the capacity indexes the slot of the same number.\<close>

lemma slot_index:
  assumes "k < 64" "n < 2 ^ k"
  shows "unat ((of_nat n :: u64) AND MASK (2 ^ k)) = n"
proof -
  have n64: "n < 2 ^ 64" using pow2_lt_64 [OF assms(1)] assms(2) by linarith
  have "(of_nat n :: u64) < 2 ^ k"
    using assms n64 by (simp add: word_less_nat_alt unat_of_nat64 unat_pow2)
  then have "(of_nat n :: u64) AND mask k = of_nat n" by (rule less_mask_eq)
  then show ?thesis using n64 by (simp add: MASK_def mask_eq_exp_minus_1 unat_of_nat64)
qed

lemma new_queue_ring_state: "new_queue Capacity = ring_state Capacity [] 0"
  by (simp add: new_queue_def ring_state_def)

lemma try_push_ring_state:
  assumes "k < 64" "length xs < 2 ^ k"
  shows "try_push (2 ^ k) x (ring_state (2 ^ k) xs 0) = (ring_state (2 ^ k) (xs @ [x]) 0, True)"
proof -
  let ?n = "length xs"
  have idx: "unat ((of_nat ?n :: u64) AND MASK (2 ^ k)) = ?n" using assms by (rule slot_index)
  have len: "?n < unat ((2::u64) ^ k)" using assms by (simp add: unat_pow2)
  have "(slots (ring_state (2 ^ k) xs 0))[?n := \<lparr>slot_seq = of_nat ?n + 1, storage = Some x\<rparr>]
        = slots (ring_state (2 ^ k) (xs @ [x]) 0)"
    using len by (auto simp: ring_state_def nth_append nth_list_update intro!: nth_equalityI)
  then show ?thesis using len idx
    by (simp add: try_push_def Let_def) (simp add: ring_state_def)
qed

lemma push_all_ring_state:
  assumes "k < 64"
  shows "length xs + length ys \<le> 2 ^ k \<Longrightarrow>
         push_all (2 ^ k) ys (ring_state (2 ^ k) xs 0)
           = (ring_state (2 ^ k) (xs @ ys) 0, replicate (length ys) True)"
proof (induction ys arbitrary: xs)
  case Nil
  then show ?case by simp
next
  case (Cons y ys)
  then have "length xs < 2 ^ k" by simp
  from try_push_ring_state [OF assms this, of y] Cons.IH [of "xs @ [y]"] Cons.prems
  show ?case by simp
qed

lemma try_pop_ring_state:
  assumes "k < 64" "length xs \<le> 2 ^ k" "j < length xs"
  shows "try_pop (2 ^ k) (ring_state (2 ^ k) xs j)
         = (ring_state (2 ^ k) xs (Suc j), Some (xs ! j))"
proof -
  have j: "j < 2 ^ k" using assms by simp
  have idx: "unat ((of_nat j :: u64) AND MASK (2 ^ k)) = j" using assms(1) j by (rule slot_index)
  have len: "j < unat ((2::u64) ^ k)" using assms(1) j by (simp add: unat_pow2)
  have "(slots (ring_state (2 ^ k) xs j))[j := \<lparr>slot_seq = of_nat j + 2 ^ k, storage = None\<rparr>]
        = slots (ring_state (2 ^ k) xs (Suc j))"
    using len assms(3) by (auto simp: ring_state_def nth_list_update intro!: nth_equalityI)
  then show ?thesis using len idx assms(3)
    by (simp add: try_pop_def Let_def) (simp add: ring_state_def)
qed

lemma pop_n_ring_state:
  assumes "k < 64" "length xs \<le> 2 ^ k"
  shows "j + m \<le> length xs \<Longrightarrow>
         pop_n (2 ^ k) m (ring_state (2 ^ k) xs j)
           = (ring_state (2 ^ k) xs (j + m), map Some (take m (drop j xs)))"
proof (induction m arbitrary: j)
  case 0
  then show ?case by simp
next
  case (Suc m)
  then have j: "j < length xs" by simp
  have "take (Suc m) (drop j xs) = xs ! j # take m (drop (Suc j) xs)"
    using j by (simp add: Cons_nth_drop_Suc [symmetric])
  with try_pop_ring_state [OF assms j] Suc.IH [of "Suc j"] Suc.prems
  show ?case by simp
qed

text \<open>
  Claim C4. For every capacity the class admits (the \<open>static_assert\<close> holds and the slot
  array is not empty) and every sequence of at most \<open>Capacity\<close> elements: pushed into a
  fresh ring with \<open>try_push\<close>, every push succeeds, and as many \<open>try_pop\<close> calls then
  return exactly the pushed elements, in the order they were pushed.
\<close>

theorem ring_fifo:
  assumes "static_assert_capacity Capacity" and "Capacity \<noteq> 0"
    and "length xs \<le> unat Capacity"
  shows "snd (push_all Capacity xs (new_queue Capacity)) = replicate (length xs) True
       \<and> snd (pop_n Capacity (length xs) (fst (push_all Capacity xs (new_queue Capacity))))
           = map Some xs"
proof -
  from pow2_of_static_assert [OF assms(1,2)]
  obtain k where k: "k < 64" and C: "Capacity = 2 ^ k" by blast
  have len: "length xs \<le> 2 ^ k" using assms(3) k by (simp add: C unat_pow2)
  show ?thesis
    using push_all_ring_state [OF k, of "[]" xs] pop_n_ring_state [OF k len, of 0 "length xs"] len
    by (simp add: new_queue_ring_state C)
qed

theorem ring_fifo_witness:
  "static_assert_capacity 4 \<and> (4 :: u64) \<noteq> 0 \<and> length [10, 20, 30 :: nat] \<le> unat (4 :: u64)
   \<and> snd (push_all 4 [10, 20, 30 :: nat] (new_queue 4)) = [True, True, True]
   \<and> snd (pop_n 4 3 (fst (push_all 4 [10, 20, 30 :: nat] (new_queue 4))))
       = [Some 10, Some 20, Some 30]"
proof -
  have a: "static_assert_capacity 4" by (simp add: static_assert_capacity_def)
  have l: "length [10, 20, 30 :: nat] \<le> unat (4 :: u64)" by simp
  from ring_fifo [OF a _ l] a show ?thesis by (simp add: numeral_3_eq_3)
qed

text \<open>
  With a capacity of at least two, a ring that holds \<open>Capacity\<close> elements refuses the
  next \<open>try_push\<close> and is left as it was.
\<close>

lemma full_ring_rejects_push:
  assumes "static_assert_capacity Capacity" and "Capacity \<noteq> 0" and "Capacity \<noteq> 1"
    and "length xs = unat Capacity"
  shows "try_push Capacity x (fst (push_all Capacity xs (new_queue Capacity)))
         = (fst (push_all Capacity xs (new_queue Capacity)), False)"
proof -
  from pow2_of_static_assert [OF assms(1,2)]
  obtain k where k: "k < 64" and C: "Capacity = 2 ^ k" by blast
  have kpos: "0 < k" using assms(3) C by (cases k) simp_all
  have len: "length xs = 2 ^ k" using assms(4) k by (simp add: C unat_pow2)
  have hp: "(of_nat (length xs) :: u64) = 2 ^ k" using len by simp
  have st: "fst (push_all (2 ^ k) xs (new_queue (2 ^ k))) = ring_state (2 ^ k) xs 0"
    using push_all_ring_state [OF k, of "[]" xs] len by (simp add: new_queue_ring_state)
  have "((2::u64) ^ k) AND MASK (2 ^ k) = 0"
    by (simp add: MASK_def pow2_and_mask flip: mask_eq_exp_minus_1)
  moreover have "(1::u64) \<noteq> 2 ^ k" using k kpos by (rule one_neq_pow2)
  moreover have "0 < unat ((2::u64) ^ k)" using k by (simp add: unat_pow2)
  ultimately have "try_push (2 ^ k) x (ring_state (2 ^ k) xs 0) = (ring_state (2 ^ k) xs 0, False)"
    using len by (simp add: try_push_def Let_def hp) (simp add: ring_state_def)
  then show ?thesis unfolding C by (simp only: st)
qed

text \<open>The slot index of any position: \<open>pos & MASK\<close> is \<open>pos mod Capacity\<close>.\<close>

lemma slot_index_mod:
  assumes "k < 64"
  shows "unat ((of_nat n :: u64) AND MASK (2 ^ k)) = n mod 2 ^ k"
proof -
  have "unat ((of_nat n :: u64) AND mask k) = unat (take_bit k (of_nat n :: u64))"
    by (simp only: take_bit_eq_mask)
  also have "\<dots> = take_bit k (unat (of_nat n :: u64))"
    by (simp only: unsigned_take_bit_eq)
  also have "\<dots> = unat (of_nat n :: u64) mod 2 ^ k"
    by (simp only: take_bit_eq_mod)
  also have "\<dots> = (n mod 2 ^ 64) mod 2 ^ k" by (simp add: unat_of_nat)
  also have "\<dots> = n mod 2 ^ k"
    using assms by (intro mod_mod_cancel le_imp_power_dvd) simp
  finally show ?thesis by (simp add: MASK_def mask_eq_exp_minus_1)
qed

lemma window_unique:
  fixes p q :: nat
  assumes "p mod c = q mod c" "T \<le> p" "p < T + c" "T \<le> q" "q < T + c"
  shows "p = q"
proof (rule ccontr)
  assume ne: "p \<noteq> q"
  have *: "False" if "a mod c = b mod c" "a < b" "b < a + c" for a b :: nat
  proof -
    have "(b - a) mod c = 0" using that(1,2)
      by (metis mod_eq_dvd_iff_nat less_imp_le_nat dvd_imp_mod_0)
    moreover have "0 < b - a" "b - a < c" using that by simp_all
    ultimately show False by simp
  qed
  from ne consider "p < q" | "q < p" by linarith
  then show False
  proof cases
    case 1
    with *[of p q] assms show False by simp
  next
    case 2
    with *[of q p] assms show False by simp
  qed
qed

lemma ring_inv_new:
  assumes "k < 64"
  shows "ring_inv k (new_queue (2 ^ k) :: 'a SPSCQueue) 0 0"
proof -
  have "slot_ok (2 ^ k) 0 0 i \<lparr>slot_seq = of_nat i, storage = (None :: 'a option)\<rparr>"
    if "i < 2 ^ k" for i
    unfolding slot_ok_def using that by (intro exI [of _ i]) simp
  then show ?thesis
    using assms by (simp add: ring_inv_def new_queue_def unat_pow2)
qed

lemma slot_at_head:
  assumes "slot_ok c H T (H mod c) sl" "T \<le> H" "H < T + c"
  shows "slot_seq sl = of_nat H"
proof -
  from assms(1) obtain p where p: "p mod c = H mod c"
    and d: "(T \<le> p \<and> p < H \<and> slot_seq sl = of_nat p + 1 \<and> storage sl \<noteq> None)
         \<or> (H \<le> p \<and> p < T + c \<and> slot_seq sl = of_nat p)"
    unfolding slot_ok_def by blast
  from d have "T \<le> p" "p < T + c" using assms(2,3) by auto
  with p assms(2,3) have "p = H" by (intro window_unique [of p c H T]) simp_all
  with d show ?thesis by auto
qed

lemma slot_at_tail:
  assumes "slot_ok c H T (T mod c) sl" "T \<le> H" "H \<le> T + c" "0 < c"
  shows "if T < H then slot_seq sl = of_nat T + 1 \<and> storage sl \<noteq> None
         else slot_seq sl = of_nat T"
proof -
  from assms(1) obtain p where p: "p mod c = T mod c"
    and d: "(T \<le> p \<and> p < H \<and> slot_seq sl = of_nat p + 1 \<and> storage sl \<noteq> None)
         \<or> (H \<le> p \<and> p < T + c \<and> slot_seq sl = of_nat p)"
    unfolding slot_ok_def by blast
  from d have "T \<le> p" "p < T + c" using assms(2,3) by auto
  with p assms(4) have "p = T" by (intro window_unique [of p c T T]) simp_all
  with d show ?thesis by auto
qed

lemma try_push_inv:
  assumes k: "k < 64" and inv: "ring_inv k q H T" and room: "H < T + 2 ^ k"
  shows "snd (try_push (2 ^ k) x q) = True \<and> ring_inv k (fst (try_push (2 ^ k) x q)) (Suc H) T"
proof -
  let ?c = "(2::nat) ^ k"
  let ?i = "H mod ?c"
  from inv have TH: "T \<le> H" and hd: "head_pos q = of_nat H" and tl: "tail_pos q = of_nat T"
    and len: "length (slots q) = ?c" and sl: "\<And>i. i < ?c \<Longrightarrow> slot_ok ?c H T i (slots q ! i)"
    by (simp_all add: ring_inv_def)
  have i: "?i < ?c" by simp
  have idx: "unat (head_pos q AND MASK (2 ^ k)) = ?i" by (simp add: hd slot_index_mod [OF k])
  have seq: "slot_seq (slots q ! ?i) = of_nat H"
    using sl [OF i] TH room by (rule slot_at_head)
  let ?q' = "q\<lparr>head_pos := of_nat H + 1,
                 slots := (slots q)[?i := \<lparr>slot_seq = of_nat H + 1, storage = Some x\<rparr>]\<rparr>"
  have res: "try_push (2 ^ k) x q = (?q', True)"
    by (simp add: try_push_def Let_def idx seq) (simp add: hd)
  have "slot_ok ?c (Suc H) T j (slots ?q' ! j)" if j: "j < ?c" for j
  proof (cases "j = ?i")
    case True
    then show ?thesis unfolding slot_ok_def using TH len i
      by (intro exI [of _ H]) simp
  next
    case False
    from sl [OF j] obtain p where p: "p mod ?c = j"
      and d: "(T \<le> p \<and> p < H \<and> slot_seq (slots q ! j) = of_nat p + 1 \<and> storage (slots q ! j) \<noteq> None)
         \<or> (H \<le> p \<and> p < T + ?c \<and> slot_seq (slots q ! j) = of_nat p)"
      unfolding slot_ok_def by blast
    have "p \<noteq> H" using p False by auto
    with d have "(T \<le> p \<and> p < Suc H \<and> slot_seq (slots q ! j) = of_nat p + 1 \<and> storage (slots q ! j) \<noteq> None)
         \<or> (Suc H \<le> p \<and> p < T + ?c \<and> slot_seq (slots q ! j) = of_nat p)"
      by auto
    with p False show ?thesis unfolding slot_ok_def by (intro exI [of _ p]) simp
  qed
  then have "ring_inv k ?q' (Suc H) T"
    using TH room tl len by (simp add: ring_inv_def)
  with res show ?thesis by simp
qed

lemma try_push_full:
  assumes k: "k < 64" "0 < k" and inv: "ring_inv k q H T" and full: "H = T + 2 ^ k"
  shows "try_push (2 ^ k) x q = (q, False)"
proof -
  let ?c = "(2::nat) ^ k"
  from inv have hd: "head_pos q = of_nat H"
    and sl: "\<And>i. i < ?c \<Longrightarrow> slot_ok ?c H T i (slots q ! i)"
    by (simp_all add: ring_inv_def)
  have m: "H mod ?c = T mod ?c" using full by simp
  have idx: "unat (head_pos q AND MASK (2 ^ k)) = T mod ?c"
    by (simp add: hd slot_index_mod [OF k(1)] m)
  have "slot_ok ?c H T (T mod ?c) (slots q ! (T mod ?c))" by (rule sl) simp
  from slot_at_tail [OF this] full
  have seq: "slot_seq (slots q ! (T mod ?c)) = of_nat T + 1" by simp
  have "(of_nat T + 1 :: u64) \<noteq> of_nat T + 2 ^ k"
    using one_neq_pow2 [OF k] by simp
  then have "slot_seq (slots q ! (T mod ?c)) \<noteq> head_pos q"
    by (simp add: seq hd full)
  then show ?thesis by (simp add: try_push_def Let_def idx)
qed

lemma try_pop_inv:
  assumes k: "k < 64" and inv: "ring_inv k q H T" and some: "T < H"
  shows "snd (try_pop (2 ^ k) q) \<noteq> None \<and> ring_inv k (fst (try_pop (2 ^ k) q)) H (Suc T)"
proof -
  let ?c = "(2::nat) ^ k"
  let ?i = "T mod ?c"
  from inv have TH: "T \<le> H" and HT: "H \<le> T + ?c"
    and hd: "head_pos q = of_nat H" and tl: "tail_pos q = of_nat T"
    and len: "length (slots q) = ?c" and sl: "\<And>i. i < ?c \<Longrightarrow> slot_ok ?c H T i (slots q ! i)"
    by (simp_all add: ring_inv_def)
  have i: "?i < ?c" by simp
  have idx: "unat (tail_pos q AND MASK (2 ^ k)) = ?i" by (simp add: tl slot_index_mod [OF k])
  from slot_at_tail [OF sl [OF i] TH HT] some
  have seq: "slot_seq (slots q ! ?i) = of_nat T + 1" and st: "storage (slots q ! ?i) \<noteq> None"
    by simp_all
  let ?q' = "q\<lparr>tail_pos := of_nat T + 1,
                 slots := (slots q)[?i := \<lparr>slot_seq = of_nat T + 2 ^ k, storage = None\<rparr>]\<rparr>"
  have res: "try_pop (2 ^ k) q = (?q', storage (slots q ! ?i))"
    by (simp add: try_pop_def Let_def idx seq) (simp add: tl)
  have "slot_ok ?c H (Suc T) j (slots ?q' ! j)" if j: "j < ?c" for j
  proof (cases "j = ?i")
    case True
    then show ?thesis unfolding slot_ok_def using HT len i
      by (intro exI [of _ "T + ?c"]) simp
  next
    case False
    from sl [OF j] obtain p where p: "p mod ?c = j"
      and d: "(T \<le> p \<and> p < H \<and> slot_seq (slots q ! j) = of_nat p + 1 \<and> storage (slots q ! j) \<noteq> None)
         \<or> (H \<le> p \<and> p < T + ?c \<and> slot_seq (slots q ! j) = of_nat p)"
      unfolding slot_ok_def by blast
    have "p \<noteq> T" using p False by auto
    with d have "(Suc T \<le> p \<and> p < H \<and> slot_seq (slots q ! j) = of_nat p + 1 \<and> storage (slots q ! j) \<noteq> None)
         \<or> (H \<le> p \<and> p < Suc T + ?c \<and> slot_seq (slots q ! j) = of_nat p)"
      by auto
    with p False show ?thesis unfolding slot_ok_def by (intro exI [of _ p]) simp
  qed
  then have "ring_inv k ?q' H (Suc T)"
    using some HT hd len by (simp add: ring_inv_def)
  with res st show ?thesis by simp
qed

lemma try_pop_empty:
  assumes k: "k < 64" and inv: "ring_inv k q H T" and empty: "T = H"
  shows "try_pop (2 ^ k) q = (q, None)"
proof -
  let ?c = "(2::nat) ^ k"
  from inv have tl: "tail_pos q = of_nat T"
    and sl: "\<And>i. i < ?c \<Longrightarrow> slot_ok ?c H T i (slots q ! i)"
    by (simp_all add: ring_inv_def)
  have idx: "unat (tail_pos q AND MASK (2 ^ k)) = T mod ?c"
    by (simp add: tl slot_index_mod [OF k])
  have "slot_ok ?c H T (T mod ?c) (slots q ! (T mod ?c))" by (rule sl) simp
  from slot_at_tail [OF this] empty
  have seq: "slot_seq (slots q ! (T mod ?c)) = of_nat T" by simp
  then show ?thesis by (simp add: try_pop_def Let_def idx) (simp add: tl)
qed

text \<open>Every state reached from a fresh ring satisfies the invariant.\<close>

lemma ring_run_inv:
  assumes "k < 64" "0 < k"
  shows "\<exists>H T. ring_inv k (ring_run (2 ^ k) ops) H T"
proof (induction ops rule: rev_induct)
  case Nil
  show ?case using ring_inv_new [OF assms(1)] by (auto simp: ring_run_def)
next
  case (snoc op ops)
  then obtain H T where inv: "ring_inv k (ring_run (2 ^ k) ops) H T" by blast
  then have bounds: "T \<le> H" "H \<le> T + 2 ^ k" by (simp_all add: ring_inv_def)
  have step: "ring_run (2 ^ k) (ops @ [o']) = ring_step (2 ^ k) (ring_run (2 ^ k) ops) o'"
    for o' :: "'a ring_op"
    by (simp add: ring_run_def)
  show ?case
  proof (cases op)
    case (Push x)
    show ?thesis
    proof (cases "H < T + 2 ^ k")
      case True
      from try_push_inv [OF assms(1) inv True, of x] show ?thesis
        by (auto simp: step Push)
    next
      case False
      with bounds have "H = T + 2 ^ k" by simp
      from try_push_full [OF assms inv this, of x] inv show ?thesis
        by (auto simp: step Push)
    qed
  next
    case Pop
    show ?thesis
    proof (cases "T < H")
      case True
      from try_pop_inv [OF assms(1) inv True] show ?thesis
        by (auto simp: step Pop)
    next
      case False
      with bounds have "T = H" by simp
      from try_pop_empty [OF assms(1) inv this] inv show ?thesis
        by (auto simp: step Pop)
    qed
  qed
qed

lemma of_nat64_eq_iff:
  assumes "a < 2 ^ 64" "b < 2 ^ 64"
  shows "((of_nat a :: u64) = of_nat b) = (a = b)"
  using unat_of_nat64 [OF assms(1)] unat_of_nat64 [OF assms(2)] by metis

text \<open>
  With a capacity of at least two, in every state that \<open>try_push\<close> and \<open>try_pop\<close>
  calls reach from a fresh ring, \<open>try_push\<close> fails exactly when \<open>head_ - tail_\<close> is the
  capacity and \<open>try_pop\<close> exactly when \<open>head_ = tail_\<close>.
\<close>

lemma ring_fails_iff:
  assumes "static_assert_capacity Capacity" and "Capacity \<noteq> 0" and "Capacity \<noteq> 1"
  shows "(snd (try_push Capacity x (ring_run Capacity ops)) = False)
           = (head_pos (ring_run Capacity ops) - tail_pos (ring_run Capacity ops) = Capacity)
       \<and> (snd (try_pop Capacity (ring_run Capacity ops)) = None)
           = (head_pos (ring_run Capacity ops) = tail_pos (ring_run Capacity ops))"
proof -
  from pow2_of_static_assert [OF assms(1,2)]
  obtain k where k: "k < 64" and C: "Capacity = 2 ^ k" by blast
  have kpos: "0 < k" using assms(3) C by (cases k) simp_all
  let ?q = "ring_run (2 ^ k) ops"
  from ring_run_inv [OF k kpos, of ops]
  obtain H T where inv: "ring_inv k ?q H T" by blast
  then have TH: "T \<le> H" and HT: "H \<le> T + 2 ^ k"
    and hd: "head_pos ?q = of_nat H" and tl: "tail_pos ?q = of_nat T"
    by (simp_all add: ring_inv_def)
  have c64: "(2::nat) ^ k < 2 ^ 64" using k by (rule pow2_lt_64)
  have d64: "H - T < 2 ^ 64" using HT c64 by linarith
  have diff: "head_pos ?q - tail_pos ?q = of_nat (H - T)"
    using TH by (simp add: hd tl)
  have full: "(head_pos ?q - tail_pos ?q = 2 ^ k) = (H = T + 2 ^ k)"
  proof -
    have "(head_pos ?q - tail_pos ?q = 2 ^ k) = ((of_nat (H - T) :: u64) = of_nat (2 ^ k))"
      by (simp add: diff)
    also have "\<dots> = (H - T = 2 ^ k)" using d64 c64 by (rule of_nat64_eq_iff)
    also have "\<dots> = (H = T + 2 ^ k)" using TH by auto
    finally show ?thesis .
  qed
  have empty: "(head_pos ?q = tail_pos ?q) = (H = T)"
  proof -
    have "(head_pos ?q = tail_pos ?q) = (head_pos ?q - tail_pos ?q = 0)" by simp
    also have "\<dots> = ((of_nat (H - T) :: u64) = of_nat 0)" by (simp add: diff)
    also have "\<dots> = (H - T = 0)" using d64 by (intro of_nat64_eq_iff) simp_all
    also have "\<dots> = (H = T)" using TH by auto
    finally show ?thesis .
  qed
  have push: "(snd (try_push (2 ^ k) x ?q) = False) = (H = T + 2 ^ k)"
  proof (cases "H < T + 2 ^ k")
    case True
    from try_push_inv [OF k inv True, of x] True show ?thesis by simp
  next
    case False
    with HT have e: "H = T + 2 ^ k" by simp
    from try_push_full [OF k kpos inv e, of x] e show ?thesis by simp
  qed
  have pop: "(snd (try_pop (2 ^ k) ?q) = None) = (H = T)"
  proof (cases "T < H")
    case True
    from try_pop_inv [OF k inv True] True show ?thesis by simp
  next
    case False
    with TH have e: "T = H" by simp
    from try_pop_empty [OF k inv e] e show ?thesis by simp
  qed
  show ?thesis unfolding C by (simp only: push pop full empty)
qed

text \<open>
  Claim C5 fails on the code for \<open>Capacity = 1\<close>, which the \<open>static_assert\<close> admits: on
  a fresh ring of capacity one the second \<open>try_push\<close> succeeds without a pop in
  between and overwrites the first element, and the \<open>try_pop\<close> that follows returns
  \<open>std::nullopt\<close> although two elements were pushed.
\<close>

theorem capacity_one_second_push_succeeds:
  "static_assert_capacity 1
   \<and> push_all 1 [10 :: nat, 20] (new_queue 1)
       = (\<lparr>head_pos = 2, tail_pos = 0, slots = [\<lparr>slot_seq = 2, storage = Some 20\<rparr>]\<rparr>,
          [True, True])
   \<and> snd (try_pop 1 (fst (push_all 1 [10 :: nat, 20] (new_queue 1)))) = None"
  by (simp add: static_assert_capacity_def new_queue_def try_push_def try_pop_def MASK_def Let_def)

section \<open>Statistics and the CSV reader\<close>

text \<open>
  Claim C10. With no sample recorded (\<open>count = 0\<close> and an empty sample vector),
  \<open>avg_ns()\<close>, \<open>median()\<close> and \<open>percentile(p)\<close> for every \<open>p\<close> return 0, whatever the
  floating-point primitives do.
\<close>

theorem empty_stats_return_zero:
  assumes "count s = 0" and "latencies s = []"
  shows "avg_ns s = 0 \<and> median fp s = 0 \<and> percentile fp p s = 0"
  using assms by (simp add: avg_ns_def median_def percentile_def)

theorem empty_stats_return_zero_witness:
  "count new_stats = 0 \<and> latencies new_stats = [] \<and> avg_ns new_stats = 0
   \<and> median unrounded_fp new_stats = 0 \<and> percentile unrounded_fp (Num 99) new_stats = 0"
  using empty_stats_return_zero [of new_stats unrounded_fp "Num 99"]
  by (simp add: new_stats_def)

text \<open>With samples, the same functions read the sorted vector: the median of 7, 9, 5.\<close>

lemma median_example:
  "median unrounded_fp (record_latency 5 (record_latency 9 (record_latency 7 new_stats))) = 7"
  by (simp add: median_def percentile_def record_latency_def new_stats_def unrounded_fp_def)

text \<open>A line that starts with neither \<open>s\<close> nor \<open>i\<close> adds nothing to the output.\<close>

lemma other_line_skipped:
  assumes "line = c # cs" and "c \<noteq> CHR ''s''" and "c \<noteq> CHR ''i''"
  shows "parse_line env beyond line out = out"
  using assms by (simp add: parse_line_def)

text \<open>A snapshot line of fewer than seven fields adds nothing to the output.\<close>

lemma short_snapshot_skipped:
  assumes "line = CHR ''s'' # cs" and "length (split_fields False [] line) < 7"
  shows "parse_line env beyond line out = out"
  using assms by (simp add: parse_line_def parse_snapshot_def)

text \<open>An incremental line adds one update, whatever the number of its fields.\<close>

lemma incremental_line_pushes:
  "parse_line env beyond (CHR ''i'' # cs) out
   = out @ [inc_loop env beyond 0 [] (CHR ''i'' # cs) (local_Update env Incremental)]"
  by (simp add: parse_line_def parse_incremental_def)

text \<open>
  Claim C8 fails on the code for incremental lines: \<open>parse_incremental\<close> has no check
  of the field count (the snapshot path has one). The line \<open>incremental,binance\<close> has
  two fields, and the file made of a header line and this line yields one update: an
  incremental update with the default level (price 0, quantity 0) and the
  indeterminate timestamp and side.
\<close>

theorem short_incremental_line_not_skipped:
  "parse_buffer env (''type,exchange'' @ [CHR 0x0A] @ ''incremental,binance'' @ [CHR 0x0A])
   = [local_Update env Incremental]"
  by (simp add: parse_buffer_def skip_line_def parse_line_def parse_incremental_def
        inc_field_def)


end
